theory Spec2Isabelle
  imports Main "HOL-Library.Word"
begin

section \<open>Go byte slices over an explicit store\<close>

text \<open>
  The builder of package \<open>iovec\<close> keeps pointers into byte slices that its caller owns,
  and one claim is about who may write where. The model therefore has an explicit store:
  a list of backing arrays, an array being addressed by its position in the list. A newly
  allocated array is put at the end, so its address is the length of the store before the
  allocation and differs from every address handed out earlier.
\<close>

type_synonym byte = "8 word"

type_synonym store = "byte list list"

text \<open>
  A slice header: the backing array, the position of element 0 in it, the length and the
  capacity (counted from element 0 of the slice, as in Go).
\<close>

record slice =
  arr :: nat
  off :: nat
  len :: nat
  cap :: nat

text \<open>The zero value of a slice type (\<open>nil\<close>).\<close>

definition nil_slice :: slice where
  "nil_slice = \<lparr>arr = 0, off = 0, len = 0, cap = 0\<rparr>"

text \<open>The largest value of Go's \<open>int\<close> on the 64-bit platforms the package builds for.\<close>

definition max_int :: nat where
  "max_int = 2 ^ 63 - 1"

datatype panic = IndexOutOfRange | SliceBoundsOutOfRange | LenOutOfRange

definition cells :: "store \<Rightarrow> nat \<Rightarrow> byte list" where
  "cells h a = (if a < length h then h ! a else [])"

text \<open>The bytes a slice denotes in a store.\<close>

definition bytes_of :: "store \<Rightarrow> slice \<Rightarrow> byte list" where
  "bytes_of h s = take (len s) (drop (off s) (cells h (arr s)))"

text \<open>\<open>&s[i]\<close>: the address of element \<open>i\<close>, with Go's index check.\<close>

definition elem_addr :: "slice \<Rightarrow> nat \<Rightarrow> panic + (nat \<times> nat)" where
  "elem_addr s i = (if i < len s then Inr (arr s, off s + i) else Inl IndexOutOfRange)"

text \<open>\<open>s[:j:k]\<close>: the full slice expression with low bound 0, with Go's bounds check.\<close>

definition slice3 :: "slice \<Rightarrow> nat \<Rightarrow> nat \<Rightarrow> panic + slice" where
  "slice3 s j k =
     (if j \<le> k \<and> k \<le> cap s then Inr (s\<lparr>len := j, cap := k\<rparr>)
      else Inl SliceBoundsOutOfRange)"

definition overwrite :: "byte list \<Rightarrow> nat \<Rightarrow> byte list \<Rightarrow> byte list" where
  "overwrite a i xs = take i a @ xs @ drop (i + length xs) a"

text \<open>
  Go's built-in \<open>append(s, xs...)\<close> on byte slices. When the result fits the capacity
  of \<open>s\<close> the bytes are written in place behind the last element of \<open>s\<close>, and the
  result shares the backing array of \<open>s\<close>. Otherwise the runtime allocates a new array,
  copies the old elements and the new ones into it, and the result starts at its
  position 0. How much spare capacity the runtime adds is its own business (size classes,
  doubling): it is the parameter \<open>spare\<close>, a function of the old capacity and the
  length needed. A length beyond \<open>int\<close> is the runtime's panic
  \<open>growslice: len out of range\<close>.
\<close>

definition append_bytes ::
    "(nat \<Rightarrow> nat \<Rightarrow> nat) \<Rightarrow> store \<Rightarrow> slice \<Rightarrow> byte list \<Rightarrow> panic + (store \<times> slice)" where
  "append_bytes spare h s xs =
     (let n = len s + length xs in
      if max_int < n then Inl LenOutOfRange
      else if n \<le> cap s then
        Inr (h[arr s := overwrite (cells h (arr s)) (off s + len s) xs], s\<lparr>len := n\<rparr>)
      else
        (let c = n + spare (cap s) n in
         Inr (h @ [bytes_of h s @ xs @ replicate (c - n) 0],
              \<lparr>arr = length h, off = 0, len = n, cap = c\<rparr>)))"

section \<open>The builder\<close>

text \<open>
  \<open>syscall.Iovec\<close>: \<open>Base\<close> is a pointer to a byte (an array and a position in it),
  \<open>Len\<close> is a \<open>uint64\<close>.
\<close>

record Iovec =
  Base :: "nat \<times> nat"
  Len :: "64 word"

text \<open>
  \<open>Builder\<close>. The slice \<open>iovec\<close> is modelled by the list of its elements: \<open>nil\<close> and
  \<open>storage[:0]\<close> are both the empty list, and the array \<open>storage\<close>, which is only the
  first backing array of \<open>iovec\<close>, has no field of its own.
\<close>

record Builder =
  iovec :: "Iovec list"
  overflow :: slice

text \<open>The zero value \<open>var builder Builder\<close>.\<close>

definition empty_builder :: Builder where
  "empty_builder = \<lparr>iovec = [], overflow = nil_slice\<rparr>"

text \<open>The range of bytes a descriptor refers to.\<close>

definition iovec_bytes :: "store \<Rightarrow> Iovec \<Rightarrow> byte list" where
  "iovec_bytes h d = take (unat (Len d)) (drop (snd (Base d)) (cells h (fst (Base d))))"

text \<open>
  \<open>addByAppend\<close>. The right-hand side of the assignment, with \<open>&w.overflow[0]\<close>, is
  evaluated before the table is written; the index \<open>len(w.iovec)-1\<close> is \<open>-1\<close> on an
  empty table, which panics.
\<close>

definition addByAppend ::
    "(nat \<Rightarrow> nat \<Rightarrow> nat) \<Rightarrow> slice \<Rightarrow> store \<times> Builder \<Rightarrow> panic + (store \<times> Builder)" where
  "addByAppend spare buf s =
     (case s of (h, w) \<Rightarrow>
        (case append_bytes spare h (overflow w) (bytes_of h buf) of
           Inl e \<Rightarrow> Inl e
         | Inr (h', ov) \<Rightarrow>
             (case elem_addr ov 0 of
                Inl e \<Rightarrow> Inl e
              | Inr p \<Rightarrow>
                  (if length (iovec w) = 0 then Inl IndexOutOfRange
                   else
                     Inr (h', w\<lparr>overflow := ov,
                                iovec := (iovec w)[length (iovec w) - 1 :=
                                            \<lparr>Base = p, Len = of_nat (len ov)\<rparr>]\<rparr>)))))"

text \<open>
  \<open>Add\<close>. \<open>MaxIovs\<close> is a package variable of type \<open>int\<close>, initialised from
  \<open>linux.UIO_MAXIOV\<close>; it is a parameter here. The statement that replaces a \<open>nil\<close>
  table by \<open>w.storage[:0]\<close> comes after the return for a zero-length buffer and changes
  no element of the table, so it has no counterpart on the list of elements.
\<close>

definition Add ::
    "(nat \<Rightarrow> nat \<Rightarrow> nat) \<Rightarrow> int \<Rightarrow> slice \<Rightarrow> store \<times> Builder \<Rightarrow> panic + (store \<times> Builder)" where
  "Add spare MaxIovs buf s =
     (case s of (h, w) \<Rightarrow>
        if len buf = 0 then Inr (h, w)
        else if MaxIovs \<le> int (length (iovec w)) then addByAppend spare buf (h, w)
        else
          (case elem_addr buf 0 of
             Inl e \<Rightarrow> Inl e
           | Inr p \<Rightarrow>
               (let w1 = w\<lparr>iovec := iovec w @ [\<lparr>Base = p, Len = of_nat (len buf)\<rparr>]\<rparr> in
                if int (length (iovec w1)) = MaxIovs then
                  (case slice3 buf (len buf) (len buf) of
                     Inl e \<Rightarrow> Inl e
                   | Inr ov \<Rightarrow> Inr (h, w1\<lparr>overflow := ov\<rparr>))
                else Inr (h, w1))))"

text \<open>\<open>Build\<close> returns the table and leaves the builder as it is.\<close>

definition Build :: "store \<times> Builder \<Rightarrow> Iovec list \<times> (store \<times> Builder)" where
  "Build s = (iovec (snd s), s)"

text \<open>A caller's sequence of \<open>Add\<close> calls; a panic ends it.\<close>

fun Adds ::
    "(nat \<Rightarrow> nat \<Rightarrow> nat) \<Rightarrow> int \<Rightarrow> slice list \<Rightarrow> store \<times> Builder \<Rightarrow> panic + (store \<times> Builder)" where
  "Adds spare MaxIovs [] s = Inr s"
| "Adds spare MaxIovs (b # bs) s =
     (case Add spare MaxIovs b s of
        Inl e \<Rightarrow> Inl e
      | Inr s' \<Rightarrow> Adds spare MaxIovs bs s')"

section \<open>Specification vocabulary\<close>

text \<open>
  A slice lies inside the store: its array exists, its capacity window fits the array,
  its length is within its capacity and within \<open>int\<close>. Every slice a Go program holds
  is of this kind.
\<close>

definition valid_slice :: "store \<Rightarrow> slice \<Rightarrow> bool" where
  "valid_slice h s \<longleftrightarrow>
     arr s < length h \<and> off s + cap s \<le> length (cells h (arr s)) \<and> len s \<le> cap s \<and> len s \<le> max_int"

text \<open>
  Store \<open>h\<close> still holds every array of \<open>h0\<close>, unchanged, at the same address.
\<close>

definition extends :: "store \<Rightarrow> store \<Rightarrow> bool" where
  "extends h0 h \<longleftrightarrow> length h0 \<le> length h \<and> take (length h0) h = h0"

text \<open>
  The descriptor of a slice: the address of its first byte and its length as \<open>uint64\<close>.
\<close>

definition desc_of :: "slice \<Rightarrow> Iovec" where
  "desc_of b = \<lparr>Base = (arr b, off b), Len = of_nat (len b)\<rparr>"

text \<open>
  The buffers of a call sequence that \<open>Add\<close> does not skip.
\<close>

definition nonempty :: "slice list \<Rightarrow> slice list" where
  "nonempty bufs = filter (\<lambda>b. len b \<noteq> 0) bufs"

text \<open>
  The state of a builder that was empty in store \<open>h0\<close> and has since been given the
  non-empty buffers \<open>bs\<close>. Below the limit the table is the buffers' descriptors and
  nothing was allocated. At the limit the overflow slice is the last buffer with its
  capacity cut to its length. Beyond the limit the overflow slice lives in an array
  allocated after \<open>h0\<close> and holds the bytes of all buffers from position
  \<open>MaxIovs - 1\<close> on.
\<close>

definition tracks :: "store \<Rightarrow> int \<Rightarrow> slice list \<Rightarrow> store \<times> Builder \<Rightarrow> bool" where
  "tracks h0 M bs s \<longleftrightarrow>
     (case s of (h, w) \<Rightarrow>
        extends h0 h \<and> list_all (valid_slice h0) bs \<and>
        (if int (length bs) < M then h = h0 \<and> iovec w = map desc_of bs \<and> overflow w = nil_slice
         else iovec w = map desc_of (take (nat M - 1) bs) @ [desc_of (overflow w)] \<and>
              valid_slice h (overflow w) \<and> len (overflow w) \<noteq> 0 \<and>
              bytes_of h (overflow w) = concat (map (bytes_of h0) (drop (nat M - 1) bs)) \<and>
              (if int (length bs) = M then h = h0 \<and> overflow w = (last bs)\<lparr>cap := len (last bs)\<rparr>
               else length h0 \<le> arr (overflow w))))"

text \<open>
  The data of \<open>TestIovecBuilderBuild\<close> (\<open>a\<close> and \<open>b\<close>) and a third buffer, each in
  an array of its own; here the array of \<open>b\<close> has two bytes of capacity beyond the
  length of \<open>b\<close>, so that an append in place would be possible.
\<close>

definition demo_store :: store where
  "demo_store = [[1, 2], [3, 4, 5, 0, 0], [6, 7, 8, 9]]"

definition buf_a :: slice where
  "buf_a = \<lparr>arr = 0, off = 0, len = 2, cap = 2\<rparr>"

definition buf_b :: slice where
  "buf_b = \<lparr>arr = 1, off = 0, len = 3, cap = 5\<rparr>"

definition buf_c :: slice where
  "buf_c = \<lparr>arr = 2, off = 0, len = 4, cap = 4\<rparr>"

text \<open>A growth policy for the examples: as much spare capacity as the length needed.\<close>

definition demo_spare :: "nat \<Rightarrow> nat \<Rightarrow> nat" where
  "demo_spare c n = n"

section \<open>The store and \<open>append\<close>\<close>

lemma extends_refl: "extends h h"
  by (simp add: extends_def)

lemma extends_cells: "extends h0 h \<Longrightarrow> a < length h0 \<Longrightarrow> cells h a = cells h0 a"
  unfolding extends_def cells_def
  by (metis le_trans linorder_not_le nth_take)

lemma extends_bytes_of: "extends h0 h \<Longrightarrow> arr s < length h0 \<Longrightarrow> bytes_of h s = bytes_of h0 s"
  by (simp add: bytes_of_def extends_cells)

lemma extends_valid: "extends h0 h \<Longrightarrow> valid_slice h0 s \<Longrightarrow> valid_slice h s"
  by (auto simp: valid_slice_def extends_cells) (simp add: extends_def)

lemma extends_snoc: "extends h0 h \<Longrightarrow> extends h0 (h @ [a])"
  by (simp add: extends_def)

lemma extends_update: "extends h0 h \<Longrightarrow> length h0 \<le> i \<Longrightarrow> extends h0 (h[i := a])"
  by (simp add: extends_def)

lemma length_bytes_of: "valid_slice h s \<Longrightarrow> length (bytes_of h s) = len s"
  by (auto simp: valid_slice_def bytes_of_def)

lemma append_fresh:
  assumes "cap s < len s + length xs" "len s + length xs \<le> max_int"
  shows "append_bytes spare h s xs =
           Inr (h @ [bytes_of h s @ xs @ replicate (spare (cap s) (len s + length xs)) 0],
                \<lparr>arr = length h, off = 0, len = len s + length xs,
                 cap = len s + length xs + spare (cap s) (len s + length xs)\<rparr>)"
  using assms by (simp add: append_bytes_def Let_def)

lemma append_inplace:
  assumes "len s + length xs \<le> cap s" "len s + length xs \<le> max_int"
  shows "append_bytes spare h s xs =
           Inr (h[arr s := overwrite (cells h (arr s)) (off s + len s) xs], s\<lparr>len := len s + length xs\<rparr>)"
  using assms by (simp add: append_bytes_def Let_def)

lemma append_panics:
  assumes "max_int < len s + length xs"
  shows "append_bytes spare h s xs = Inl LenOutOfRange"
  using assms by (simp add: append_bytes_def Let_def)

lemma bytes_of_fresh:
  assumes "valid_slice h s"
  shows "bytes_of (h @ [bytes_of h s @ xs @ pad]) \<lparr>arr = length h, off = 0, len = len s + length xs, cap = c\<rparr>
           = bytes_of h s @ xs"
  using length_bytes_of [OF assms] by (simp add: bytes_of_def cells_def)

lemma bytes_of_inplace:
  assumes "valid_slice h s" "len s + length xs \<le> cap s"
  shows "bytes_of (h[arr s := overwrite (cells h (arr s)) (off s + len s) xs]) (s\<lparr>len := len s + length xs\<rparr>)
           = bytes_of h s @ xs"
proof -
  let ?A = "cells h (arr s)"
  have a: "arr s < length h" and b: "off s + cap s \<le> length ?A"
    using assms(1) by (simp_all add: valid_slice_def)
  have c: "off s + len s \<le> length ?A" using b assms(2) by simp
  have "drop (off s) (take (off s + len s) ?A @ xs @ drop (off s + len s + length xs) ?A)
          = take (len s) (drop (off s) ?A) @ xs @ drop (off s + len s + length xs) ?A"
    using c by (simp add: drop_take)
  moreover have "length (take (len s) (drop (off s) ?A)) = len s"
    using c by simp
  ultimately show ?thesis
    using a by (simp add: bytes_of_def cells_def overwrite_def)
qed

lemma valid_inplace:
  assumes "valid_slice h s" "len s + length xs \<le> cap s" "len s + length xs \<le> max_int"
  shows "valid_slice (h[arr s := overwrite (cells h (arr s)) (off s + len s) xs]) (s\<lparr>len := len s + length xs\<rparr>)"
  using assms by (auto simp: valid_slice_def cells_def overwrite_def)

lemma valid_fresh:
  assumes "valid_slice h s" "n = len s + length xs" "n \<le> max_int"
  shows "valid_slice (h @ [bytes_of h s @ xs @ replicate k 0]) \<lparr>arr = length h, off = 0, len = n, cap = n + k\<rparr>"
  using assms length_bytes_of [OF assms(1)] by (simp add: valid_slice_def cells_def)

lemma Add_empty: "len buf = 0 \<Longrightarrow> Add spare M buf s = Inr s"
  by (simp add: Add_def split: prod.splits)

lemma Add_direct:
  assumes "len buf \<noteq> 0" "int (length (iovec w)) + 1 < M"
  shows "Add spare M buf (h, w) = Inr (h, w\<lparr>iovec := iovec w @ [desc_of buf]\<rparr>)"
  using assms by (simp add: Add_def elem_addr_def desc_of_def Let_def)

lemma Add_saturate:
  assumes "len buf \<noteq> 0" "int (length (iovec w)) + 1 = M"
  shows "Add spare M buf (h, w) =
           (if len buf \<le> cap buf
            then Inr (h, w\<lparr>iovec := iovec w @ [desc_of buf], overflow := buf\<lparr>cap := len buf\<rparr>\<rparr>)
            else Inl SliceBoundsOutOfRange)"
  using assms by (auto simp: Add_def elem_addr_def desc_of_def Let_def slice3_def)

lemma Add_merge:
  assumes "len buf \<noteq> 0" "M \<le> int (length (iovec w))"
  shows "Add spare M buf (h, w) = addByAppend spare buf (h, w)"
  using assms by (simp add: Add_def)

lemma update_last: "xs \<noteq> [] \<Longrightarrow> xs[length xs - Suc 0 := x] = butlast xs @ [x]"
  by (induction xs rule: rev_induct) simp_all

lemma addByAppend_Inr:
  assumes "append_bytes spare h (overflow w) (bytes_of h buf) = Inr (h', ov)"
    and "iovec w \<noteq> []" and "len ov \<noteq> 0"
  shows "addByAppend spare buf (h, w) =
           Inr (h', w\<lparr>overflow := ov, iovec := butlast (iovec w) @ [desc_of ov]\<rparr>)"
  using assms by (simp add: addByAppend_def elem_addr_def desc_of_def update_last)

lemma append_bytes_cases:
  assumes "append_bytes spare h s xs = Inr (h', s')"
  shows "len s' = len s + length xs \<and> len s' \<le> max_int \<and>
         (len s' \<le> cap s \<and> s' = s\<lparr>len := len s + length xs\<rparr> \<and>
            h' = h[arr s := overwrite (cells h (arr s)) (off s + len s) xs]
          \<or> cap s < len s' \<and> arr s' = length h \<and> off s' = 0 \<and> len s' \<le> cap s' \<and>
            (\<exists>pad. h' = h @ [bytes_of h s @ xs @ pad] \<and> length pad = cap s' - len s'))"
  using assms by (auto simp: append_bytes_def Let_def split: if_splits)

lemma append_bytes_valid:
  assumes "valid_slice h s" "append_bytes spare h s xs = Inr (h', s')"
  shows "valid_slice h' s' \<and> bytes_of h' s' = bytes_of h s @ xs"
proof -
  from append_bytes_cases [OF assms(2)]
  have n: "len s' = len s + length xs" "len s' \<le> max_int" by simp_all
  from append_bytes_cases [OF assms(2)]
  consider (inplace) "len s' \<le> cap s" "s' = s\<lparr>len := len s + length xs\<rparr>"
      "h' = h[arr s := overwrite (cells h (arr s)) (off s + len s) xs]"
    | (fresh) pad where "cap s < len s'" "arr s' = length h" "off s' = 0" "len s' \<le> cap s'"
      "h' = h @ [bytes_of h s @ xs @ pad]" "length pad = cap s' - len s'"
    by blast
  then show ?thesis
  proof cases
    case inplace
    then show ?thesis
      using n assms(1) valid_inplace [of h s xs] bytes_of_inplace [of h s xs] by simp
  next
    case fresh
    have "s' = \<lparr>arr = length h, off = 0, len = len s + length xs, cap = cap s'\<rparr>"
      using fresh n by simp
    then have "bytes_of h' s' = bytes_of h s @ xs"
      using bytes_of_fresh [OF assms(1), of xs pad "cap s'"] fresh(5) by simp
    moreover have "valid_slice h' s'"
      using fresh n length_bytes_of [OF assms(1)] by (simp add: valid_slice_def cells_def)
    ultimately show ?thesis by simp
  qed
qed

lemma append_bytes_extends:
  assumes "extends h0 h" "append_bytes spare h s xs = Inr (h', s')"
    and "length h0 \<le> arr s \<or> cap s < len s + length xs"
  shows "extends h0 h' \<and> length h0 \<le> arr s'"
  using append_bytes_cases [OF assms(2)] assms(1,3)
  by (auto simp: extends_snoc extends_update) (simp_all add: extends_def)

lemma append_bytes_total:
  "len s + length xs \<le> max_int \<Longrightarrow> \<exists>h' s'. append_bytes spare h s xs = Inr (h', s')"
  by (simp add: append_bytes_def Let_def)

lemma tracks_init: "1 \<le> M \<Longrightarrow> tracks h0 M [] (h0, empty_builder)"
  by (simp add: tracks_def extends_refl empty_builder_def)

lemma desc_of_cap: "desc_of (b\<lparr>cap := c\<rparr>) = desc_of b"
  by (simp add: desc_of_def)

lemma addByAppend_InrD:
  "addByAppend spare buf (h, w) = Inr s' \<Longrightarrow>
     \<exists>h' ov. append_bytes spare h (overflow w) (bytes_of h buf) = Inr (h', ov)"
  by (auto simp: addByAppend_def split: sum.splits)

lemma tracks_direct:
  assumes "tracks h0 M bs (h, w)" "valid_slice h0 b" "len b \<noteq> 0" "int (length bs) + 1 < M"
  shows "Add spare M b (h, w) = Inr (h, w\<lparr>iovec := iovec w @ [desc_of b]\<rparr>) \<and>
         tracks h0 M (bs @ [b]) (h, w\<lparr>iovec := iovec w @ [desc_of b]\<rparr>)"
proof -
  have iv: "iovec w = map desc_of bs" and ov: "overflow w = nil_slice" and hh: "h = h0"
    using assms(1,4) by (simp_all add: tracks_def)
  have "Add spare M b (h, w) = Inr (h, w\<lparr>iovec := iovec w @ [desc_of b]\<rparr>)"
    using Add_direct [OF assms(3), of w M] assms(4) iv by simp
  moreover have "tracks h0 M (bs @ [b]) (h, w\<lparr>iovec := iovec w @ [desc_of b]\<rparr>)"
    using assms iv ov hh by (simp add: tracks_def)
  ultimately show ?thesis by simp
qed

lemma tracks_saturate:
  assumes "tracks h0 M bs (h, w)" "valid_slice h0 b" "len b \<noteq> 0" "int (length bs) + 1 = M"
  shows "Add spare M b (h, w) =
           Inr (h, w\<lparr>iovec := iovec w @ [desc_of b], overflow := b\<lparr>cap := len b\<rparr>\<rparr>) \<and>
         tracks h0 M (bs @ [b]) (h, w\<lparr>iovec := iovec w @ [desc_of b], overflow := b\<lparr>cap := len b\<rparr>\<rparr>)"
proof -
  have iv: "iovec w = map desc_of bs" and ext: "extends h0 h" and hh: "h = h0"
    using assms(1,4) by (simp_all add: tracks_def extends_refl)
  have k: "nat M - 1 = length bs" using assms(4) by simp
  have le: "len b \<le> cap b" using assms(2) by (simp add: valid_slice_def)
  have eq: "Add spare M b (h, w) =
      Inr (h, w\<lparr>iovec := iovec w @ [desc_of b], overflow := b\<lparr>cap := len b\<rparr>\<rparr>)"
    using Add_saturate [OF assms(3), of w M] assms(4) iv le by simp
  have v: "valid_slice h (b\<lparr>cap := len b\<rparr>)"
    using extends_valid [OF ext assms(2)] by (simp add: valid_slice_def)
  have by0: "bytes_of h (b\<lparr>cap := len b\<rparr>) = bytes_of h0 b"
    using extends_bytes_of [OF ext, of b] assms(2) by (simp add: valid_slice_def bytes_of_def)
  have "tracks h0 M (bs @ [b]) (h, w\<lparr>iovec := iovec w @ [desc_of b], overflow := b\<lparr>cap := len b\<rparr>\<rparr>)"
    using assms iv ext v by0 k hh by (simp add: tracks_def desc_of_cap extends_refl)
  with eq show ?thesis by simp
qed

lemma tracks_merge:
  assumes "1 \<le> M" "tracks h0 M bs (h, w)" "valid_slice h0 b" "len b \<noteq> 0" "M \<le> int (length bs)"
    and "append_bytes spare h (overflow w) (bytes_of h b) = Inr (h', ov)"
  shows "Add spare M b (h, w) =
           Inr (h', w\<lparr>overflow := ov, iovec := butlast (iovec w) @ [desc_of ov]\<rparr>) \<and>
         tracks h0 M (bs @ [b]) (h', w\<lparr>overflow := ov, iovec := butlast (iovec w) @ [desc_of ov]\<rparr>)"
proof -
  let ?k = "nat M - 1"
  have k: "?k < length bs" using assms(1,5) by simp
  have ext: "extends h0 h" and vs: "list_all (valid_slice h0) bs"
    and iv: "iovec w = map desc_of (take ?k bs) @ [desc_of (overflow w)]"
    and vo: "valid_slice h (overflow w)"
    and bo: "bytes_of h (overflow w) = concat (map (bytes_of h0) (drop ?k bs))"
    and al: "if int (length bs) = M then h = h0 \<and> overflow w = (last bs)\<lparr>cap := len (last bs)\<rparr>
             else length h0 \<le> arr (overflow w)"
    using assms(2,5) by (simp_all add: tracks_def)
  have bb: "bytes_of h b = bytes_of h0 b"
    using extends_bytes_of [OF ext, of b] assms(3) by (simp add: valid_slice_def)
  have lb: "length (bytes_of h b) = len b"
    using bb length_bytes_of [OF assms(3)] by simp
  have n: "len ov = len (overflow w) + len b"
    using append_bytes_cases [OF assms(6)] lb by simp
  have len_iv: "int (length (iovec w)) = M" using iv k assms(1) by simp
  have "Add spare M b (h, w) = addByAppend spare b (h, w)"
    using Add_merge [OF assms(4), of M w] len_iv by simp
  also have "\<dots> = Inr (h', w\<lparr>overflow := ov, iovec := butlast (iovec w) @ [desc_of ov]\<rparr>)"
    using addByAppend_Inr [OF assms(6)] iv n assms(4) by simp
  finally have eq: "Add spare M b (h, w) =
      Inr (h', w\<lparr>overflow := ov, iovec := butlast (iovec w) @ [desc_of ov]\<rparr>)" .
  have "length h0 \<le> arr (overflow w) \<or> cap (overflow w) < len (overflow w) + length (bytes_of h b)"
  proof (cases "int (length bs) = M")
    case True
    then have "cap (overflow w) = len (overflow w)" using al by simp
    then show ?thesis using lb assms(4) by simp
  next
    case False
    then show ?thesis using al by simp
  qed
  from append_bytes_extends [OF ext assms(6) this]
  have ext': "extends h0 h'" and fresh: "length h0 \<le> arr ov" by simp_all
  from append_bytes_valid [OF vo assms(6)]
  have vo': "valid_slice h' ov" and bo': "bytes_of h' ov = bytes_of h (overflow w) @ bytes_of h b"
    by simp_all
  have "tracks h0 M (bs @ [b]) (h', w\<lparr>overflow := ov, iovec := butlast (iovec w) @ [desc_of ov]\<rparr>)"
    using ext' vs assms(3,4,5) k iv vo' bo' bo bb fresh n
    by (simp add: tracks_def butlast_append)
  with eq show ?thesis by simp
qed

lemma tracks_Add:
  assumes "1 \<le> M" "tracks h0 M bs s" "valid_slice h0 b" "len b \<noteq> 0"
    and "Add spare M b s = Inr s'"
  shows "tracks h0 M (bs @ [b]) s'"
proof -
  obtain h w where s: "s = (h, w)" by (cases s)
  consider "int (length bs) + 1 < M" | "int (length bs) + 1 = M" | "M \<le> int (length bs)"
    by linarith
  then show ?thesis
  proof cases
    case 1
    from tracks_direct [OF assms(2) [unfolded s] assms(3,4) 1, of spare] assms(5) s
    show ?thesis by simp
  next
    case 2
    from tracks_saturate [OF assms(2) [unfolded s] assms(3,4) 2, of spare] assms(5) s
    show ?thesis by simp
  next
    case 3
    have len_iv: "int (length (iovec w)) = M"
      using assms(1,2) 3 s by (simp add: tracks_def)
    have "addByAppend spare b (h, w) = Inr s'"
      using Add_merge [OF assms(4), of M w spare h] len_iv assms(5) s by simp
    from addByAppend_InrD [OF this] obtain h' ov
      where "append_bytes spare h (overflow w) (bytes_of h b) = Inr (h', ov)" by blast
    from tracks_merge [OF assms(1) assms(2) [unfolded s] assms(3,4) 3 this] assms(5) s
    show ?thesis by simp
  qed
qed

lemma tracks_Adds:
  assumes "1 \<le> M"
  shows "tracks h0 M bs s \<Longrightarrow> list_all (valid_slice h0) (nonempty bufs) \<Longrightarrow>
         Adds spare M bufs s = Inr s' \<Longrightarrow> tracks h0 M (bs @ nonempty bufs) s'"
proof (induction bufs arbitrary: bs s)
  case Nil
  then show ?case by (simp add: nonempty_def)
next
  case (Cons b bufs)
  show ?case
  proof (cases "len b = 0")
    case True
    then show ?thesis
      using Cons.IH [of bs s] Cons.prems by (simp add: Add_empty nonempty_def)
  next
    case False
    from Cons.prems(3) obtain s1 where s1: "Add spare M b s = Inr s1"
      and rest: "Adds spare M bufs s1 = Inr s'"
      by (auto split: sum.splits)
    have vb: "valid_slice h0 b" and vr: "list_all (valid_slice h0) (nonempty bufs)"
      using Cons.prems(2) False by (simp_all add: nonempty_def)
    from tracks_Add [OF assms Cons.prems(1) vb False s1]
    have "tracks h0 M (bs @ [b]) s1" .
    from Cons.IH [OF this vr rest] show ?thesis
      using False by (simp add: nonempty_def)
  qed
qed

lemma length_concat_bytes:
  "list_all (valid_slice h) bs \<Longrightarrow> length (concat (map (bytes_of h) bs)) = sum_list (map len bs)"
  by (induction bs) (simp_all add: length_bytes_of)

lemma sum_len_drop_append:
  "sum_list (map len (drop k xs)) \<le> sum_list (map len (drop k (xs @ ys)))"
  by simp

lemma tracks_total:
  assumes "1 \<le> M" "tracks h0 M bs s" "valid_slice h0 b" "len b \<noteq> 0"
    and "sum_list (map len (drop (nat M - 1) (bs @ [b]))) \<le> max_int"
  shows "\<exists>s'. Add spare M b s = Inr s'"
proof -
  obtain h w where s: "s = (h, w)" by (cases s)
  consider "int (length bs) + 1 < M" | "int (length bs) + 1 = M" | "M \<le> int (length bs)"
    by linarith
  then show ?thesis
  proof cases
    case 1
    from tracks_direct [OF assms(2) [unfolded s] assms(3,4) 1, of spare] s
    show ?thesis by simp
  next
    case 2
    from tracks_saturate [OF assms(2) [unfolded s] assms(3,4) 2, of spare] s
    show ?thesis by simp
  next
    case 3
    let ?k = "nat M - 1"
    have k: "?k < length bs" using assms(1) 3 by simp
    have ext: "extends h0 h" and vs: "list_all (valid_slice h0) bs"
      and vo: "valid_slice h (overflow w)"
      and bo: "bytes_of h (overflow w) = concat (map (bytes_of h0) (drop ?k bs))"
      using assms(2) 3 s by (simp_all add: tracks_def)
    have "list_all (valid_slice h0) (drop ?k bs)"
      using vs by (simp add: list_all_iff) (meson in_set_dropD)
    from length_concat_bytes [OF this] bo length_bytes_of [OF vo]
    have lo: "len (overflow w) = sum_list (map len (drop ?k bs))" by simp
    have "bytes_of h b = bytes_of h0 b"
      using extends_bytes_of [OF ext, of b] assms(3) by (simp add: valid_slice_def)
    then have lb: "length (bytes_of h b) = len b"
      using length_bytes_of [OF assms(3)] by simp
    have "len (overflow w) + length (bytes_of h b) \<le> max_int"
      using lo lb assms(5) k by simp
    from append_bytes_total [OF this] obtain h' ov
      where "append_bytes spare h (overflow w) (bytes_of h b) = Inr (h', ov)" by blast
    from tracks_merge [OF assms(1) assms(2) [unfolded s] assms(3,4) 3 this] s
    show ?thesis by simp
  qed
qed

lemma tracks_panic:
  assumes "1 \<le> M" "tracks h0 M bs s" "valid_slice h0 b" "len b \<noteq> 0"
    and "Add spare M b s = Inl e"
  shows "e = LenOutOfRange"
proof -
  obtain h w where s: "s = (h, w)" by (cases s)
  consider "int (length bs) + 1 < M" | "int (length bs) + 1 = M" | "M \<le> int (length bs)"
    by linarith
  then show ?thesis
  proof cases
    case 1
    from tracks_direct [OF assms(2) [unfolded s] assms(3,4) 1, of spare] s assms(5)
    show ?thesis by simp
  next
    case 2
    from tracks_saturate [OF assms(2) [unfolded s] assms(3,4) 2, of spare] s assms(5)
    show ?thesis by simp
  next
    case 3
    show ?thesis
    proof (cases "append_bytes spare h (overflow w) (bytes_of h b)")
      case (Inl e')
      have len_iv: "int (length (iovec w)) = M"
        using assms(1,2) 3 s by (simp add: tracks_def)
      have "e' = LenOutOfRange"
        using Inl by (simp add: append_bytes_def Let_def split: if_splits)
      moreover have "Add spare M b s = Inl e'"
        using Add_merge [OF assms(4), of M w spare h] len_iv Inl s
        by (simp add: addByAppend_def)
      ultimately show ?thesis using assms(5) by simp
    next
      case (Inr r)
      obtain h' ov where "r = (h', ov)" by (cases r)
      with Inr have "append_bytes spare h (overflow w) (bytes_of h b) = Inr (h', ov)" by simp
      from tracks_merge [OF assms(1) assms(2) [unfolded s] assms(3,4) 3 this] s assms(5)
      show ?thesis by simp
    qed
  qed
qed

lemma Adds_total:
  assumes "1 \<le> M"
  shows "tracks h0 M bs s \<Longrightarrow> list_all (valid_slice h0) (nonempty bufs) \<Longrightarrow>
         sum_list (map len (drop (nat M - 1) (bs @ nonempty bufs))) \<le> max_int \<Longrightarrow>
         \<exists>s'. Adds spare M bufs s = Inr s'"
proof (induction bufs arbitrary: bs s)
  case Nil
  then show ?case by simp
next
  case (Cons b bufs)
  show ?case
  proof (cases "len b = 0")
    case True
    then show ?thesis
      using Cons.IH [of bs s] Cons.prems by (simp add: Add_empty nonempty_def)
  next
    case False
    have vb: "valid_slice h0 b" and vr: "list_all (valid_slice h0) (nonempty bufs)"
      using Cons.prems(2) False by (simp_all add: nonempty_def)
    have ne: "bs @ nonempty (b # bufs) = (bs @ [b]) @ nonempty bufs"
      using False by (simp add: nonempty_def)
    have "sum_list (map len (drop (nat M - 1) (bs @ [b]))) \<le> max_int"
      using sum_len_drop_append [of "nat M - 1" "bs @ [b]" "nonempty bufs"] Cons.prems(3)
      unfolding ne by linarith
    from tracks_total [OF assms Cons.prems(1) vb False this]
    obtain s1 where s1: "Add spare M b s = Inr s1" by blast
    from tracks_Add [OF assms Cons.prems(1) vb False s1]
    have t1: "tracks h0 M (bs @ [b]) s1" .
    from Cons.IH [OF t1 vr] Cons.prems(3) ne s1 show ?thesis by simp
  qed
qed

lemma Adds_panic:
  assumes "1 \<le> M"
  shows "tracks h0 M bs s \<Longrightarrow> list_all (valid_slice h0) (nonempty bufs) \<Longrightarrow>
         Adds spare M bufs s = Inl e \<Longrightarrow> e = LenOutOfRange"
proof (induction bufs arbitrary: bs s)
  case Nil
  then show ?case by simp
next
  case (Cons b bufs)
  show ?case
  proof (cases "len b = 0")
    case True
    then show ?thesis
      using Cons.IH [of bs s] Cons.prems by (simp add: Add_empty nonempty_def)
  next
    case False
    have vb: "valid_slice h0 b" and vr: "list_all (valid_slice h0) (nonempty bufs)"
      using Cons.prems(2) False by (simp_all add: nonempty_def)
    show ?thesis
    proof (cases "Add spare M b s")
      case (Inl e')
      from tracks_panic [OF assms Cons.prems(1) vb False Inl] Inl Cons.prems(3)
      show ?thesis by simp
    next
      case (Inr s1)
      from tracks_Add [OF assms Cons.prems(1) vb False Inr]
      have t1: "tracks h0 M (bs @ [b]) s1" .
      from Cons.IH [OF t1 vr] Inr Cons.prems(3) show ?thesis by simp
    qed
  qed
qed

lemma Adds_append:
  "Adds spare M (xs @ ys) s =
     (case Adds spare M xs s of Inl e \<Rightarrow> Inl e | Inr s' \<Rightarrow> Adds spare M ys s')"
  by (induction xs arbitrary: s) (simp_all split: sum.splits)

lemma unat_len: "n \<le> max_int \<Longrightarrow> unat (of_nat n :: 64 word) = n"
  by (simp add: max_int_def unat_of_nat)

lemma iovec_bytes_desc: "len b \<le> max_int \<Longrightarrow> iovec_bytes h (desc_of b) = bytes_of h b"
  by (simp add: iovec_bytes_def desc_of_def bytes_of_def unat_len)

section \<open>Calls that change nothing\<close>

lemma Adds_all_empty:
  "list_all (\<lambda>b. len b = 0) bufs \<Longrightarrow> Adds spare M bufs s = Inr s"
  by (induction bufs) (simp_all add: Add_empty)

text \<open>
  C6: \<open>Add\<close> with a zero-length buffer is a no-op in every builder state: it returns
  the state it was given (store, table and overflow slice), so no descriptor is produced.
  \<open>Build\<close> on the empty builder returns the empty table, and it still does after any
  number of zero-length \<open>Add\<close>s.
\<close>

theorem Add_zero_length_noop:
  "(len buf = 0 \<longrightarrow> Add spare MaxIovs buf s = Inr s) \<and>
   fst (Build (h, empty_builder)) = [] \<and>
   (list_all (\<lambda>b. len b = 0) bufs \<longrightarrow>
      Adds spare MaxIovs bufs s = Inr s \<and>
      (\<exists>s'. Adds spare MaxIovs bufs (h, empty_builder) = Inr s' \<and> fst (Build s') = []))"
  by (simp add: Add_empty Adds_all_empty Build_def empty_builder_def)

theorem Add_zero_length_noop_witness:
  "len nil_slice = 0 \<and>
   Add (\<lambda>c n. n) 8 nil_slice (demo_store, \<lparr>iovec = [desc_of buf_a], overflow = nil_slice\<rparr>)
     = Inr (demo_store, \<lparr>iovec = [desc_of buf_a], overflow = nil_slice\<rparr>) \<and>
   list_all (\<lambda>b. len b = 0) [nil_slice, buf_a\<lparr>len := 0\<rparr>] \<and>
   Adds (\<lambda>c n. n) 8 [nil_slice, buf_a\<lparr>len := 0\<rparr>]
       (demo_store, \<lparr>iovec = [desc_of buf_a], overflow = nil_slice\<rparr>)
     = Inr (demo_store, \<lparr>iovec = [desc_of buf_a], overflow = nil_slice\<rparr>) \<and>
   (\<exists>s'. Adds (\<lambda>c n. n) 8 [nil_slice, buf_a\<lparr>len := 0\<rparr>] (demo_store, empty_builder) = Inr s' \<and>
         fst (Build s') = [])"
proof -
  have z: "len nil_slice = 0"
    by (simp add: nil_slice_def)
  have l: "list_all (\<lambda>b. len b = 0) [nil_slice, buf_a\<lparr>len := 0\<rparr>]"
    by (simp add: nil_slice_def)
  from z l Add_zero_length_noop [of nil_slice "\<lambda>c n. n" 8
      "(demo_store, \<lparr>iovec = [desc_of buf_a], overflow = nil_slice\<rparr>)" demo_store
      "[nil_slice, buf_a\<lparr>len := 0\<rparr>]"]
  show ?thesis by blast
qed

text \<open>
  C7: \<open>Build\<close> leaves the state of the builder as it is, and consecutive calls of
  \<open>Build\<close> with no \<open>Add\<close> between them return the same table.
\<close>

theorem Build_pure:
  "snd (Build s) = s \<and>
   fst (Build (snd (Build s))) = fst (Build s) \<and>
   fst (Build (snd (Build (snd (Build s))))) = fst (Build s)"
  by (simp add: Build_def)

text \<open>
  C10: \<open>Add\<close> after \<open>Build\<close> is unaffected by the \<open>Build\<close>: the calls
  \<open>Add\<close> for each buffer of \<open>s1\<close>, \<open>Build\<close>, \<open>Add\<close> for each buffer of
  \<open>s2\<close>, \<open>Build\<close> end in the same table (or the same panic) as \<open>Add\<close> for each
  buffer of \<open>s1 @ s2\<close> followed by one \<open>Build\<close>, from every state of the builder.
\<close>

theorem Add_after_Build:
  "(case Adds spare MaxIovs s1 s0 of
      Inl e \<Rightarrow> Inl e
    | Inr sa \<Rightarrow>
        (case Build sa of (t1, sb) \<Rightarrow>
           (case Adds spare MaxIovs s2 sb of
              Inl e \<Rightarrow> Inl e
            | Inr sc \<Rightarrow> Inr (fst (Build sc)))))
   = (case Adds spare MaxIovs (s1 @ s2) s0 of
        Inl e \<Rightarrow> Inl e
      | Inr sd \<Rightarrow> Inr (fst (Build sd)))"
  by (simp add: Adds_append Build_def split: sum.splits)

section \<open>The table refers to the bytes that were added\<close>

lemma map_iovec_bytes:
  "extends h0 h \<Longrightarrow> list_all (valid_slice h0) bs \<Longrightarrow>
     map (iovec_bytes h) (map desc_of bs) = map (bytes_of h0) bs"
  by (induction bs) (simp_all add: iovec_bytes_desc extends_bytes_of valid_slice_def)

lemma list_all_take: "list_all P xs \<Longrightarrow> list_all P (take k xs)"
  by (simp add: list_all_iff) (meson in_set_takeD)

lemma list_all_drop: "list_all P xs \<Longrightarrow> list_all P (drop k xs)"
  by (simp add: list_all_iff) (meson in_set_dropD)

lemma tracks_concat:
  assumes "1 \<le> M" "tracks h0 M bs (h, w)"
  shows "concat (map (iovec_bytes h) (iovec w)) = concat (map (bytes_of h0) bs)"
proof (cases "int (length bs) < M")
  case True
  then have ext: "extends h0 h" and vs: "list_all (valid_slice h0) bs"
    and iv: "iovec w = map desc_of bs"
    using assms(2) by (simp_all add: tracks_def extends_refl)
  from map_iovec_bytes [OF ext vs] iv show ?thesis by (simp only:)
next
  case False
  let ?k = "nat M - 1"
  have ext: "extends h0 h" and vs: "list_all (valid_slice h0) bs"
    and iv: "iovec w = map desc_of (take ?k bs) @ [desc_of (overflow w)]"
    and vo: "valid_slice h (overflow w)"
    and bo: "bytes_of h (overflow w) = concat (map (bytes_of h0) (drop ?k bs))"
    using assms(2) False by (simp_all add: tracks_def)
  have a: "map (iovec_bytes h) (map desc_of (take ?k bs)) = map (bytes_of h0) (take ?k bs)"
    using map_iovec_bytes [OF ext list_all_take [OF vs]] .
  have b: "iovec_bytes h (desc_of (overflow w)) = concat (map (bytes_of h0) (drop ?k bs))"
    using vo bo by (simp add: iovec_bytes_desc valid_slice_def)
  have "concat (map (iovec_bytes h) (iovec w))
      = concat (map (iovec_bytes h) (map desc_of (take ?k bs)))
          @ iovec_bytes h (desc_of (overflow w))"
    unfolding iv by simp
  also have "\<dots> = concat (map (bytes_of h0) (take ?k bs)) @ concat (map (bytes_of h0) (drop ?k bs))"
    by (simp only: a b)
  also have "\<dots> = concat (map (bytes_of h0) (take ?k bs @ drop ?k bs))"
    by (simp only: map_append concat_append)
  finally show ?thesis by simp
qed

text \<open>
  C1: for every sequence of \<open>Add\<close> calls on the empty builder, with \<open>MaxIovs\<close> at
  least 1 and the non-empty buffers being slices of the caller's store \<open>h0\<close>, the
  concatenation of the ranges that the descriptors returned by \<open>Build\<close> refer to, in
  table order, is the concatenation of the non-empty buffers in call order, whether
  their number is within \<open>MaxIovs\<close> or beyond it. The calls do return whenever the
  merged buffers together are no longer than an \<open>int\<close> can count.
\<close>

theorem Build_concat_transparent:
  assumes "1 \<le> MaxIovs" and "list_all (valid_slice h0) (nonempty bufs)"
  shows "(\<forall>h w. Adds spare MaxIovs bufs (h0, empty_builder) = Inr (h, w) \<longrightarrow>
            concat (map (iovec_bytes h) (fst (Build (h, w))))
              = concat (map (bytes_of h0) (nonempty bufs))) \<and>
         (sum_list (map len (drop (nat MaxIovs - 1) (nonempty bufs))) \<le> max_int \<longrightarrow>
            (\<exists>s. Adds spare MaxIovs bufs (h0, empty_builder) = Inr s))"
proof (intro conjI allI impI)
  fix h w
  assume "Adds spare MaxIovs bufs (h0, empty_builder) = Inr (h, w)"
  from tracks_Adds [OF assms(1) tracks_init [OF assms(1)] assms(2) this]
  have "tracks h0 MaxIovs (nonempty bufs) (h, w)" by simp
  from tracks_concat [OF assms(1) this]
  show "concat (map (iovec_bytes h) (fst (Build (h, w))))
          = concat (map (bytes_of h0) (nonempty bufs))"
    by (simp add: Build_def)
next
  assume "sum_list (map len (drop (nat MaxIovs - 1) (nonempty bufs))) \<le> max_int"
  with Adds_total [OF assms(1) tracks_init [OF assms(1)] assms(2), of spare]
  show "\<exists>s. Adds spare MaxIovs bufs (h0, empty_builder) = Inr s" by simp
qed

lemmas demo_defs = demo_store_def buf_a_def buf_b_def buf_c_def nil_slice_def
  empty_builder_def

lemmas run_defs = Add_def addByAppend_def append_bytes_def elem_addr_def slice3_def
  bytes_of_def cells_def overwrite_def max_int_def Let_def

lemma demo_valid:
  "valid_slice demo_store buf_a" "valid_slice demo_store buf_b" "valid_slice demo_store buf_c"
  by (simp_all add: valid_slice_def demo_defs cells_def max_int_def)

lemma demo_nonempty: "nonempty [buf_a, nil_slice, buf_b, buf_c] = [buf_a, buf_b, buf_c]"
  by (simp add: nonempty_def demo_defs)

lemma demo_run:
  "Adds (\<lambda>c n. n) 2 [buf_a, nil_slice, buf_b, buf_c] (demo_store, empty_builder) =
     Inr (demo_store @ [[3, 4, 5, 6, 7, 8, 9] @ replicate 7 0],
          \<lparr>iovec = [\<lparr>Base = (0, 0), Len = 2\<rparr>, \<lparr>Base = (3, 0), Len = 7\<rparr>],
           overflow = \<lparr>arr = 3, off = 0, len = 7, cap = 14\<rparr>\<rparr>)"
  by (simp add: demo_defs run_defs)

theorem Build_concat_transparent_witness:
  "1 \<le> (2::int) \<and>
   list_all (valid_slice demo_store) (nonempty [buf_a, nil_slice, buf_b, buf_c]) \<and>
   (\<exists>h w. Adds (\<lambda>c n. n) 2 [buf_a, nil_slice, buf_b, buf_c] (demo_store, empty_builder) = Inr (h, w) \<and>
      concat (map (iovec_bytes h) (fst (Build (h, w)))) = [1, 2, 3, 4, 5, 6, 7, 8, 9])"
proof -
  have v: "list_all (valid_slice demo_store) (nonempty [buf_a, nil_slice, buf_b, buf_c])"
    by (simp add: demo_nonempty demo_valid)
  have c: "concat (map (bytes_of demo_store) (nonempty [buf_a, nil_slice, buf_b, buf_c]))
             = [1, 2, 3, 4, 5, 6, 7, 8, 9]"
    by (simp add: demo_nonempty) (simp add: demo_defs bytes_of_def cells_def)
  have one: "1 \<le> (2::int)" by simp
  from Build_concat_transparent [OF one v, of "\<lambda>c n. n"] demo_run c v
  show ?thesis by (simp del: Adds.simps)
qed

section \<open>The number of descriptors\<close>

lemma sum_len_short:
  "list_all (valid_slice h) bs \<Longrightarrow> length bs \<le> 1 \<Longrightarrow> sum_list (map len bs) \<le> max_int"
  by (cases bs) (simp_all add: valid_slice_def)

lemma nonempty_id: "list_all (\<lambda>b. len b \<noteq> 0) bufs \<Longrightarrow> nonempty bufs = bufs"
  by (induction bufs) (simp_all add: nonempty_def)

lemma tracks_within:
  assumes "tracks h0 M bs (h, w)" "int (length bs) \<le> M" "1 \<le> M"
  shows "h = h0 \<and> iovec w = map desc_of bs"
proof (cases "int (length bs) < M")
  case True
  then show ?thesis using assms(1) by (simp add: tracks_def)
next
  case False
  then have eq: "int (length bs) = M" using assms(2) by simp
  then have ne: "bs \<noteq> []" and k: "nat M - 1 = length bs - 1"
    using False assms(3) by auto
  have "h = h0" and "overflow w = (last bs)\<lparr>cap := len (last bs)\<rparr>"
    and "iovec w = map desc_of (take (nat M - 1) bs) @ [desc_of (overflow w)]"
    using assms(1) eq by (simp_all add: tracks_def)
  then have "iovec w = map desc_of (butlast bs @ [last bs])"
    using k by (simp add: desc_of_cap butlast_conv_take)
  then show ?thesis using ne \<open>h = h0\<close> by simp
qed

lemma unat_Len_desc:
  "list_all (valid_slice h) bs \<Longrightarrow> map (\<lambda>d. unat (Len d)) (map desc_of bs) = map len bs"
  by (induction bs) (simp_all add: desc_of_def unat_len valid_slice_def)

text \<open>
  C4: for every sequence of non-empty buffers, slices of the caller's store, whose number
  is at most \<open>MaxIovs\<close>, the \<open>Add\<close> calls return without allocating anything, and
  \<open>Build\<close> returns one descriptor per buffer, in call order, each with the address of
  the buffer's first byte as its base and the buffer's length as its length.
\<close>

theorem Build_one_descriptor_per_buffer:
  assumes "list_all (valid_slice h0) bufs" and "list_all (\<lambda>b. len b \<noteq> 0) bufs"
    and "int (length bufs) \<le> MaxIovs"
  shows "\<exists>w. Adds spare MaxIovs bufs (h0, empty_builder) = Inr (h0, w) \<and>
           fst (Build (h0, w)) = map (\<lambda>b. \<lparr>Base = (arr b, off b), Len = of_nat (len b)\<rparr>) bufs \<and>
           map (\<lambda>d. unat (Len d)) (fst (Build (h0, w))) = map len bufs"
proof (cases "bufs = []")
  case True
  then show ?thesis by (simp add: Build_def empty_builder_def)
next
  case False
  then have one: "1 \<le> MaxIovs" using assms(3) by (cases bufs) simp_all
  have ne: "nonempty bufs = bufs" using assms(2) by (rule nonempty_id)
  have v: "list_all (valid_slice h0) (nonempty bufs)" using assms(1) ne by simp
  have "length (drop (nat MaxIovs - 1) bufs) \<le> 1" using assms(3) by simp
  from sum_len_short [OF list_all_drop [OF assms(1)] this]
  have "sum_list (map len (drop (nat MaxIovs - 1) ([] @ nonempty bufs))) \<le> max_int"
    using ne by simp
  from Adds_total [OF one tracks_init [OF one] v this]
  obtain h w where run: "Adds spare MaxIovs bufs (h0, empty_builder) = Inr (h, w)"
    by (metis surj_pair)
  from tracks_Adds [OF one tracks_init [OF one] v run]
  have "tracks h0 MaxIovs bufs (h, w)" using ne by simp
  from tracks_within [OF this assms(3) one]
  have h: "h = h0" and iv: "iovec w = map desc_of bufs" by simp_all
  have "map (\<lambda>d. unat (Len d)) (iovec w) = map len bufs"
    using unat_Len_desc [OF assms(1)] iv by (simp only:)
  moreover have "map desc_of bufs = map (\<lambda>b. \<lparr>Base = (arr b, off b), Len = of_nat (len b)\<rparr>) bufs"
    by (simp add: desc_of_def)
  ultimately show ?thesis
    using run h iv by (simp add: Build_def)
qed

theorem Build_one_descriptor_per_buffer_witness:
  "list_all (valid_slice demo_store) [buf_a, buf_b] \<and>
   list_all (\<lambda>b. len b \<noteq> 0) [buf_a, buf_b] \<and>
   int (length [buf_a, buf_b]) \<le> 8 \<and>
   (\<exists>w. Adds (\<lambda>c n. n) 8 [buf_a, buf_b] (demo_store, empty_builder) = Inr (demo_store, w) \<and>
      fst (Build (demo_store, w)) = [\<lparr>Base = (0, 0), Len = 2\<rparr>, \<lparr>Base = (1, 0), Len = 3\<rparr>])"
proof -
  have v: "list_all (valid_slice demo_store) [buf_a, buf_b]"
    by (simp add: demo_valid)
  have n: "list_all (\<lambda>b. len b \<noteq> 0) [buf_a, buf_b]"
    by (simp add: demo_defs)
  have l: "int (length [buf_a, buf_b]) \<le> 8" by simp
  have "map (\<lambda>b. \<lparr>Base = (arr b, off b), Len = of_nat (len b)\<rparr>) [buf_a, buf_b]
          = [\<lparr>Base = (0, 0), Len = 2\<rparr>, \<lparr>Base = (1, 0), Len = 3 :: 64 word\<rparr>]"
    by (simp add: demo_defs)
  with Build_one_descriptor_per_buffer [OF v n l, of "\<lambda>c n. n"] v n l
  show ?thesis by (auto simp del: Adds.simps)
qed

lemma Add_length:
  assumes "Add spare M buf (h, w) = Inr (h', w')"
  shows "length (iovec w') =
           (if len buf = 0 \<or> M \<le> int (length (iovec w)) then length (iovec w)
            else Suc (length (iovec w)))"
  using assms
  by (auto simp: Add_def addByAppend_def Let_def elem_addr_def slice3_def
      split: if_splits sum.splits prod.splits)

lemma Adds_length:
  "int (length (iovec w)) \<le> M \<Longrightarrow> Adds spare M bufs (h, w) = Inr (h', w') \<Longrightarrow>
     int (length (iovec w')) = min M (int (length (iovec w)) + int (length (nonempty bufs)))"
proof (induction bufs arbitrary: h w)
  case Nil
  then show ?case by (simp add: nonempty_def)
next
  case (Cons b bufs)
  from Cons.prems(2) obtain h1 w1 where s1: "Add spare M b (h, w) = Inr (h1, w1)"
    and rest: "Adds spare M bufs (h1, w1) = Inr (h', w')"
    by (auto split: sum.splits)
  note l1 = Add_length [OF s1]
  have le1: "int (length (iovec w1)) \<le> M"
    using l1 Cons.prems(1) by (auto split: if_splits)
  from Cons.IH [OF le1 rest] l1 Cons.prems(1) show ?case
    by (auto simp: nonempty_def split: if_splits)
qed

text \<open>
  C5: an \<open>Add\<close> that returns keeps the table within \<open>MaxIovs\<close> entries, so the table
  of a builder that started empty has between 0 and \<open>MaxIovs\<close> entries after every
  \<open>Add\<close> (for a \<open>MaxIovs\<close> that is not negative); and once more than \<open>MaxIovs\<close>
  non-empty buffers were added, \<open>Build\<close> returns exactly \<open>MaxIovs\<close> descriptors. The
  calls do return when the buffers are slices of the store and the merged buffers
  together are no longer than an \<open>int\<close> can count.
\<close>

theorem table_length_bounded:
  "(int (length (iovec w)) \<le> MaxIovs \<and> Add spare MaxIovs buf (h, w) = Inr (h', w')
      \<longrightarrow> int (length (iovec w')) \<le> MaxIovs) \<and>
   (0 \<le> MaxIovs \<and> Adds spare MaxIovs bufs (h0, empty_builder) = Inr (h1, w1)
      \<longrightarrow> int (length (fst (Build (h1, w1)))) \<le> MaxIovs) \<and>
   (0 \<le> MaxIovs \<and> MaxIovs < int (length (nonempty bufs)) \<and>
    Adds spare MaxIovs bufs (h0, empty_builder) = Inr (h1, w1)
      \<longrightarrow> int (length (fst (Build (h1, w1)))) = MaxIovs) \<and>
   (1 \<le> MaxIovs \<and> list_all (valid_slice h0) (nonempty bufs) \<and>
    sum_list (map len (drop (nat MaxIovs - 1) (nonempty bufs))) \<le> max_int
      \<longrightarrow> (\<exists>s. Adds spare MaxIovs bufs (h0, empty_builder) = Inr s))"
proof (intro conjI impI)
  assume "int (length (iovec w)) \<le> MaxIovs \<and> Add spare MaxIovs buf (h, w) = Inr (h', w')"
  then show "int (length (iovec w')) \<le> MaxIovs"
    using Add_length [of spare MaxIovs buf h w h' w'] by (auto split: if_splits)
next
  assume a: "0 \<le> MaxIovs \<and> Adds spare MaxIovs bufs (h0, empty_builder) = Inr (h1, w1)"
  then have "int (length (iovec empty_builder)) \<le> MaxIovs" by (simp add: empty_builder_def)
  from Adds_length [OF this conjunct2 [OF a]] a
  show "int (length (fst (Build (h1, w1)))) \<le> MaxIovs"
    by (simp add: Build_def)
next
  assume a: "0 \<le> MaxIovs \<and> MaxIovs < int (length (nonempty bufs)) \<and>
    Adds spare MaxIovs bufs (h0, empty_builder) = Inr (h1, w1)"
  then have "int (length (iovec empty_builder)) \<le> MaxIovs" by (simp add: empty_builder_def)
  from Adds_length [OF this conjunct2 [OF conjunct2 [OF a]]] a
  show "int (length (fst (Build (h1, w1)))) = MaxIovs"
    by (simp add: Build_def empty_builder_def)
next
  assume a: "1 \<le> MaxIovs \<and> list_all (valid_slice h0) (nonempty bufs) \<and>
    sum_list (map len (drop (nat MaxIovs - 1) (nonempty bufs))) \<le> max_int"
  then have one: "1 \<le> MaxIovs" by simp
  from Adds_total [OF one tracks_init [OF one], of h0 bufs spare] a
  show "\<exists>s. Adds spare MaxIovs bufs (h0, empty_builder) = Inr s" by simp
qed

lemma demo_step:
  "Add (\<lambda>c n. n) 2 buf_a (demo_store, empty_builder) =
     Inr (demo_store, \<lparr>iovec = [\<lparr>Base = (0, 0), Len = 2\<rparr>], overflow = nil_slice\<rparr>)"
  by (simp add: demo_defs run_defs)

theorem table_length_bounded_witness:
  "int (length (iovec empty_builder)) \<le> 2 \<and>
   Add (\<lambda>c n. n) 2 buf_a (demo_store, empty_builder) =
     Inr (demo_store, \<lparr>iovec = [\<lparr>Base = (0, 0), Len = 2\<rparr>], overflow = nil_slice\<rparr>) \<and>
   int (length (iovec \<lparr>iovec = [\<lparr>Base = (0, 0), Len = 2\<rparr>], overflow = nil_slice\<rparr>)) \<le> 2 \<and>
   (0::int) \<le> 2 \<and> 2 < int (length (nonempty [buf_a, nil_slice, buf_b, buf_c])) \<and>
   1 \<le> (2::int) \<and> list_all (valid_slice demo_store) (nonempty [buf_a, nil_slice, buf_b, buf_c]) \<and>
   sum_list (map len (drop (nat 2 - 1) (nonempty [buf_a, nil_slice, buf_b, buf_c]))) \<le> max_int \<and>
   (\<exists>h1 w1. Adds (\<lambda>c n. n) 2 [buf_a, nil_slice, buf_b, buf_c] (demo_store, empty_builder) = Inr (h1, w1) \<and>
      int (length (fst (Build (h1, w1)))) = 2)"
proof -
  have a: "int (length (iovec empty_builder)) \<le> 2"
    by (simp add: empty_builder_def)
  have b: "2 < int (length (nonempty [buf_a, nil_slice, buf_b, buf_c]))"
    by (simp add: demo_nonempty)
  have c: "list_all (valid_slice demo_store) (nonempty [buf_a, nil_slice, buf_b, buf_c])"
    by (simp add: demo_nonempty demo_valid)
  have d: "sum_list (map len (drop (nat 2 - 1) (nonempty [buf_a, nil_slice, buf_b, buf_c]))) \<le> max_int"
    by (simp add: demo_nonempty) (simp add: demo_defs max_int_def)
  from a b c d demo_step demo_run
    table_length_bounded [of empty_builder 2 "\<lambda>c n. n" buf_a demo_store demo_store
      "\<lparr>iovec = [\<lparr>Base = (0, 0), Len = 2\<rparr>], overflow = nil_slice\<rparr>"
      "[buf_a, nil_slice, buf_b, buf_c]" demo_store
      "demo_store @ [[3, 4, 5, 6, 7, 8, 9] @ replicate 7 0]"
      "\<lparr>iovec = [\<lparr>Base = (0, 0), Len = 2\<rparr>, \<lparr>Base = (3, 0), Len = 7\<rparr>],
        overflow = \<lparr>arr = 3, off = 0, len = 7, cap = 14\<rparr>\<rparr>"]
  show ?thesis by (simp del: Adds.simps)
qed

section \<open>Saturation and safety of the accesses\<close>

lemma tracks_overflow:
  assumes "1 \<le> M" "tracks h0 M bs (h, w)"
  shows "(len (overflow w) \<noteq> 0 \<longleftrightarrow> int (length (iovec w)) = M) \<and>
         (M \<le> int (length (iovec w)) \<longrightarrow> iovec w \<noteq> [] \<and> len (overflow w) \<noteq> 0) \<and>
         (len (overflow w) \<noteq> 0 \<longrightarrow>
            last (iovec w) = desc_of (overflow w) \<and> valid_slice h (overflow w))"
  using assms by (auto simp: tracks_def nil_slice_def split: if_splits)

text \<open>
  C9: in every state reached from the empty builder by \<open>Add\<close> calls, with \<open>MaxIovs\<close>
  at least 1, the overflow slice is non-empty exactly when the table holds \<open>MaxIovs\<close>
  entries, and then the length of the last descriptor is the length of the overflow
  slice.
\<close>

theorem overflow_iff_saturated:
  assumes "1 \<le> MaxIovs" and "list_all (valid_slice h0) (nonempty bufs)"
    and "Adds spare MaxIovs bufs (h0, empty_builder) = Inr (h, w)"
  shows "(len (overflow w) \<noteq> 0 \<longleftrightarrow> int (length (iovec w)) = MaxIovs) \<and>
         (len (overflow w) \<noteq> 0 \<longrightarrow>
            Len (last (iovec w)) = of_nat (len (overflow w)) \<and>
            unat (Len (last (iovec w))) = len (overflow w))"
proof -
  from tracks_Adds [OF assms(1) tracks_init [OF assms(1)] assms(2,3)]
  have "tracks h0 MaxIovs (nonempty bufs) (h, w)" by simp
  from tracks_overflow [OF assms(1) this] show ?thesis
    by (auto simp: desc_of_def unat_len valid_slice_def)
qed

theorem overflow_iff_saturated_witness:
  "1 \<le> (2::int) \<and>
   list_all (valid_slice demo_store) (nonempty [buf_a, nil_slice, buf_b, buf_c]) \<and>
   (\<exists>h w. Adds (\<lambda>c n. n) 2 [buf_a, nil_slice, buf_b, buf_c] (demo_store, empty_builder) = Inr (h, w) \<and>
      len (overflow w) = 7 \<and> int (length (iovec w)) = 2 \<and> unat (Len (last (iovec w))) = 7)"
proof -
  have one: "1 \<le> (2::int)" by simp
  have v: "list_all (valid_slice demo_store) (nonempty [buf_a, nil_slice, buf_b, buf_c])"
    by (simp add: demo_nonempty demo_valid)
  from overflow_iff_saturated [OF one v demo_run] one v demo_run
  show ?thesis by (simp del: Adds.simps)
qed

text \<open>
  C8: with \<open>MaxIovs\<close> at least 1, no \<open>Add\<close> of a call sequence from the empty builder
  fails an index check or a slice bounds check, so \<open>&buf[0]\<close>,
  \<open>w.iovec[len(w.iovec)-1]\<close> and \<open>&w.overflow[0]\<close> are in range: a state in merge mode
  has a non-empty table and a non-empty overflow slice. With \<open>MaxIovs = 0\<close> the first
  \<open>Add\<close> of a non-empty buffer indexes the empty table at \<open>-1\<close> and panics.
\<close>

theorem Add_index_safe:
  "(1 \<le> MaxIovs \<and> list_all (valid_slice h0) (nonempty bufs) \<longrightarrow>
      Adds spare MaxIovs bufs (h0, empty_builder) \<noteq> Inl IndexOutOfRange \<and>
      Adds spare MaxIovs bufs (h0, empty_builder) \<noteq> Inl SliceBoundsOutOfRange \<and>
      (\<forall>h w. Adds spare MaxIovs bufs (h0, empty_builder) = Inr (h, w) \<and>
             MaxIovs \<le> int (length (iovec w)) \<longrightarrow>
             iovec w \<noteq> [] \<and> len (overflow w) \<noteq> 0)) \<and>
   (valid_slice h0 buf \<and> len buf \<noteq> 0 \<longrightarrow>
      Add spare 0 buf (h0, empty_builder) = Inl IndexOutOfRange)"
proof (intro conjI impI allI)
  assume a: "1 \<le> MaxIovs \<and> list_all (valid_slice h0) (nonempty bufs)"
  then have one: "1 \<le> MaxIovs" and v: "list_all (valid_slice h0) (nonempty bufs)"
    by simp_all
  from Adds_panic [OF one tracks_init [OF one] v]
  show "Adds spare MaxIovs bufs (h0, empty_builder) \<noteq> Inl IndexOutOfRange"
    and "Adds spare MaxIovs bufs (h0, empty_builder) \<noteq> Inl SliceBoundsOutOfRange"
    by fastforce+
  fix h w
  assume b: "Adds spare MaxIovs bufs (h0, empty_builder) = Inr (h, w) \<and>
    MaxIovs \<le> int (length (iovec w))"
  from tracks_Adds [OF one tracks_init [OF one] v conjunct1 [OF b]]
  have "tracks h0 MaxIovs (nonempty bufs) (h, w)" by simp
  from tracks_overflow [OF one this] b
  show "iovec w \<noteq> []" and "len (overflow w) \<noteq> 0" by simp_all
next
  assume a: "valid_slice h0 buf \<and> len buf \<noteq> 0"
  then have "length (bytes_of h0 buf) = len buf" and "len buf \<le> max_int"
    by (simp_all add: length_bytes_of valid_slice_def)
  then show "Add spare 0 buf (h0, empty_builder) = Inl IndexOutOfRange"
    using a by (simp add: Add_def addByAppend_def append_bytes_def elem_addr_def Let_def
        empty_builder_def nil_slice_def)
qed

theorem Add_index_safe_witness:
  "1 \<le> (2::int) \<and>
   list_all (valid_slice demo_store) (nonempty [buf_a, nil_slice, buf_b, buf_c]) \<and>
   Adds (\<lambda>c n. n) 2 [buf_a, nil_slice, buf_b, buf_c] (demo_store, empty_builder)
     \<noteq> Inl IndexOutOfRange \<and>
   valid_slice demo_store buf_a \<and> len buf_a \<noteq> 0 \<and>
   Add (\<lambda>c n. n) 0 buf_a (demo_store, empty_builder) = Inl IndexOutOfRange"
proof -
  have one: "1 \<le> (2::int)" by simp
  have v: "list_all (valid_slice demo_store) (nonempty [buf_a, nil_slice, buf_b, buf_c])"
    by (simp add: demo_nonempty demo_valid)
  have n: "len buf_a \<noteq> 0" by (simp add: demo_defs)
  from one v n demo_valid(1)
    Add_index_safe [of 2 demo_store "[buf_a, nil_slice, buf_b, buf_c]" "\<lambda>c n. n" buf_a]
  show ?thesis by (simp del: Adds.simps)
qed

section \<open>Merge mode\<close>

lemma nonempty_append: "nonempty (xs @ ys) = nonempty xs @ nonempty ys"
  by (simp add: nonempty_def)

lemma cells_update_other: "a \<noteq> a' \<Longrightarrow> cells (h[a := xs]) a' = cells h a'"
  by (simp add: cells_def)

lemma iovec_bytes_update_other:
  "fst (Base d) \<noteq> a \<Longrightarrow> iovec_bytes (h[a := xs]) d = iovec_bytes h d"
  by (simp add: iovec_bytes_def cells_def)

lemma merge_step:
  assumes "1 \<le> M" "M \<le> int (length (iovec w))" "len buf \<noteq> 0"
    and "valid_slice h buf" "valid_slice h (overflow w)"
    and "append_bytes spare h (overflow w) (bytes_of h buf) = Inr (h', ov)"
  shows "Add spare M buf (h, w) =
           Inr (h', w\<lparr>overflow := ov, iovec := butlast (iovec w) @ [desc_of ov]\<rparr>) \<and>
         valid_slice h' ov \<and> bytes_of h' ov = bytes_of h (overflow w) @ bytes_of h buf \<and>
         len ov = len (overflow w) + len buf"
proof -
  have ne: "iovec w \<noteq> []" using assms(1,2) by auto
  have n: "len ov = len (overflow w) + len buf"
    using append_bytes_cases [OF assms(6)] length_bytes_of [OF assms(4)] by simp
  then have "len ov \<noteq> 0" using assms(3) by simp
  from addByAppend_Inr [OF assms(6) ne this] Add_merge [OF assms(3,2), of spare h]
  have "Add spare M buf (h, w) =
      Inr (h', w\<lparr>overflow := ov, iovec := butlast (iovec w) @ [desc_of ov]\<rparr>)" by simp
  with append_bytes_valid [OF assms(5,6)] n show ?thesis by simp
qed

text \<open>
  C3: a non-empty buffer added while the table holds \<open>MaxIovs\<close> entries is copied behind
  the bytes of the overflow slice, and the last descriptor is rewritten to the first byte
  and the new total length of the overflow slice as it is after the append; the other
  descriptors stay. The call returns unless the new length is beyond \<open>int\<close>. With
  \<open>MaxIovs = 2\<close>, adding \<open>[1, 2]\<close>, \<open>[3, 4, 5]\<close> and \<open>[6, 7, 8, 9]\<close> gives two
  descriptors, for \<open>[1, 2]\<close> and for \<open>[3, 4, 5, 6, 7, 8, 9]\<close>. A state reached from the
  empty builder in merge mode has a valid overflow slice (\<open>tracks_overflow\<close>).
\<close>

theorem merge_mode_appends:
  "(1 \<le> MaxIovs \<and> MaxIovs \<le> int (length (iovec w)) \<and> len buf \<noteq> 0 \<and>
    valid_slice h buf \<and> valid_slice h (overflow w) \<longrightarrow>
      (\<forall>h' w'. Add spare MaxIovs buf (h, w) = Inr (h', w') \<longrightarrow>
         bytes_of h' (overflow w') = bytes_of h (overflow w) @ bytes_of h buf \<and>
         iovec w' = butlast (iovec w) @
           [\<lparr>Base = (arr (overflow w'), off (overflow w')), Len = of_nat (len (overflow w'))\<rparr>] \<and>
         unat (Len (last (iovec w'))) = len (overflow w) + len buf \<and>
         iovec_bytes h' (last (iovec w')) = bytes_of h (overflow w) @ bytes_of h buf) \<and>
      (len (overflow w) + len buf \<le> max_int \<longrightarrow>
         (\<exists>s'. Add spare MaxIovs buf (h, w) = Inr s'))) \<and>
   (\<exists>h' w'. Adds spare 2 [buf_a, buf_b, buf_c] (demo_store, empty_builder) = Inr (h', w') \<and>
      length (fst (Build (h', w'))) = 2 \<and>
      map (iovec_bytes h') (fst (Build (h', w'))) = [[1, 2], [3, 4, 5, 6, 7, 8, 9]])"
proof (intro conjI impI allI)
  fix h' w'
  assume a: "1 \<le> MaxIovs \<and> MaxIovs \<le> int (length (iovec w)) \<and> len buf \<noteq> 0 \<and>
    valid_slice h buf \<and> valid_slice h (overflow w)"
    and r: "Add spare MaxIovs buf (h, w) = Inr (h', w')"
  then have "addByAppend spare buf (h, w) = Inr (h', w')"
    using Add_merge [of buf MaxIovs w spare h] by simp
  from addByAppend_InrD [OF this] obtain h'' ov
    where ap: "append_bytes spare h (overflow w) (bytes_of h buf) = Inr (h'', ov)" by blast
  from a merge_step [OF _ _ _ _ _ ap, of MaxIovs] r
  have h': "h' = h''" and w': "w' = w\<lparr>overflow := ov, iovec := butlast (iovec w) @ [desc_of ov]\<rparr>"
    and v: "valid_slice h' ov" and b: "bytes_of h' ov = bytes_of h (overflow w) @ bytes_of h buf"
    and n: "len ov = len (overflow w) + len buf"
    by simp_all
  have le: "len ov \<le> max_int" using v by (simp add: valid_slice_def)
  show "bytes_of h' (overflow w') = bytes_of h (overflow w) @ bytes_of h buf"
    using w' b by simp
  show "iovec w' = butlast (iovec w) @
      [\<lparr>Base = (arr (overflow w'), off (overflow w')), Len = of_nat (len (overflow w'))\<rparr>]"
    using w' by (simp add: desc_of_def)
  have "unat (Len (desc_of ov)) = len ov"
    using le by (simp add: desc_of_def unat_len)
  then show "unat (Len (last (iovec w'))) = len (overflow w) + len buf"
    using w' n by simp
  show "iovec_bytes h' (last (iovec w')) = bytes_of h (overflow w) @ bytes_of h buf"
    using w' b le by (simp add: iovec_bytes_desc)
next
  assume a: "1 \<le> MaxIovs \<and> MaxIovs \<le> int (length (iovec w)) \<and> len buf \<noteq> 0 \<and>
    valid_slice h buf \<and> valid_slice h (overflow w)"
    and t: "len (overflow w) + len buf \<le> max_int"
  have "len (overflow w) + length (bytes_of h buf) \<le> max_int"
    using a t by (simp add: length_bytes_of)
  from append_bytes_total [OF this] obtain h'' ov
    where ap: "append_bytes spare h (overflow w) (bytes_of h buf) = Inr (h'', ov)" by blast
  from a merge_step [OF _ _ _ _ _ ap, of MaxIovs]
  show "\<exists>s'. Add spare MaxIovs buf (h, w) = Inr s'" by simp
next
  show "\<exists>h' w'. Adds spare 2 [buf_a, buf_b, buf_c] (demo_store, empty_builder) = Inr (h', w') \<and>
      length (fst (Build (h', w'))) = 2 \<and>
      map (iovec_bytes h') (fst (Build (h', w'))) = [[1, 2], [3, 4, 5, 6, 7, 8, 9]]"
    by (simp add: demo_defs run_defs Build_def iovec_bytes_def)
qed

lemma demo_saturated:
  "Adds spare 2 [buf_a, nil_slice, buf_b] (demo_store, empty_builder) =
     Inr (demo_store,
          \<lparr>iovec = [\<lparr>Base = (0, 0), Len = 2\<rparr>, \<lparr>Base = (1, 0), Len = 3\<rparr>],
           overflow = buf_b\<lparr>cap := 3\<rparr>\<rparr>)"
  by (simp add: demo_defs run_defs)

lemma demo_merge:
  "Add (\<lambda>c n. n) 2 buf_c
       (demo_store,
        \<lparr>iovec = [\<lparr>Base = (0, 0), Len = 2\<rparr>, \<lparr>Base = (1, 0), Len = 3\<rparr>], overflow = buf_b\<lparr>cap := 3\<rparr>\<rparr>) =
     Inr (demo_store @ [[3, 4, 5, 6, 7, 8, 9] @ replicate 7 0],
          \<lparr>iovec = [\<lparr>Base = (0, 0), Len = 2\<rparr>, \<lparr>Base = (3, 0), Len = 7\<rparr>],
           overflow = \<lparr>arr = 3, off = 0, len = 7, cap = 14\<rparr>\<rparr>)"
  by (simp add: demo_defs run_defs)

theorem merge_mode_appends_witness:
  "1 \<le> (2::int) \<and>
   2 \<le> int (length (iovec \<lparr>iovec = [\<lparr>Base = (0, 0), Len = 2\<rparr>, \<lparr>Base = (1, 0), Len = 3\<rparr>],
                            overflow = buf_b\<lparr>cap := 3\<rparr>\<rparr>)) \<and>
   len buf_c \<noteq> 0 \<and> valid_slice demo_store buf_c \<and>
   valid_slice demo_store (buf_b\<lparr>cap := 3\<rparr>) \<and>
   (\<exists>h' w'. Add (\<lambda>c n. n) 2 buf_c
        (demo_store,
         \<lparr>iovec = [\<lparr>Base = (0, 0), Len = 2\<rparr>, \<lparr>Base = (1, 0), Len = 3\<rparr>], overflow = buf_b\<lparr>cap := 3\<rparr>\<rparr>)
          = Inr (h', w') \<and>
      bytes_of h' (overflow w') = [3, 4, 5, 6, 7, 8, 9] \<and>
      iovec_bytes h' (last (iovec w')) = [3, 4, 5, 6, 7, 8, 9])"
proof -
  have n: "len buf_c \<noteq> 0" by (simp add: demo_defs)
  have b: "bytes_of demo_store (buf_b\<lparr>cap := 3\<rparr>) @ bytes_of demo_store buf_c
             = [3, 4, 5, 6, 7, 8, 9]"
    by (simp add: demo_defs bytes_of_def cells_def)
  have v: "valid_slice demo_store (buf_b\<lparr>cap := 3\<rparr>)"
    by (simp add: valid_slice_def demo_defs cells_def max_int_def)
  from n b v demo_valid demo_merge
    merge_mode_appends [of 2
      "\<lparr>iovec = [\<lparr>Base = (0, 0), Len = 2\<rparr>, \<lparr>Base = (1, 0), Len = 3\<rparr>], overflow = buf_b\<lparr>cap := 3\<rparr>\<rparr>"
      buf_c demo_store "\<lambda>c n. n"]
  show ?thesis by simp
qed

section \<open>The overflow slice and the caller's memory\<close>

text \<open>
  C2, amended: the \<open>Add\<close> that brings the table to \<open>MaxIovs\<close> entries keeps its
  buffer as the overflow slice with the capacity cut to the length (\<open>buf[:n:n]\<close>), and
  allocates nothing. Hence the first \<open>Add\<close> of a non-empty buffer after saturation cannot
  append in place: the overflow slice moves to a newly allocated array and the caller's
  arrays stay as they were. Later growth stays in storage that the builder allocated, in
  place or in a newer array. After at least one further \<open>Add\<close> of a non-empty buffer the
  last descriptor points into an array that the builder allocated, so whatever the caller
  then writes into the array of the buffer that triggered saturation, the bytes that the
  last descriptor of \<open>Build\<close> refers to are the same.
\<close>

theorem overflow_seed_not_aliased:
  assumes "1 \<le> MaxIovs"
    and "list_all (valid_slice h0) (nonempty (pre @ b # post))"
    and "int (length (nonempty pre)) + 1 = MaxIovs" and "len b \<noteq> 0"
    and "nonempty post \<noteq> []"
    and "Adds spare MaxIovs (pre @ [b]) (h0, empty_builder) = Inr (h1, w1)"
    and "Adds spare MaxIovs post (h1, w1) = Inr (h2, w2)"
  shows "h1 = h0 \<and> int (length (iovec w1)) = MaxIovs \<and> overflow w1 = b\<lparr>cap := len b\<rparr> \<and>
         (\<forall>c h' w'. valid_slice h0 c \<and> len c \<noteq> 0 \<and> Add spare MaxIovs c (h1, w1) = Inr (h', w')
            \<longrightarrow> arr (overflow w') = length h1 \<and> length h' = Suc (length h1) \<and>
                take (length h1) h' = h1) \<and>
         length h1 \<le> arr (overflow w2) \<and> take (length h1) h2 = h1 \<and>
         Base (last (fst (Build (h2, w2)))) = (arr (overflow w2), off (overflow w2)) \<and>
         (\<forall>xs. iovec_bytes (h2[arr b := xs]) (last (fst (Build (h2[arr b := xs], w2))))
                = iovec_bytes h2 (last (fst (Build (h2, w2)))))"
proof -
  let ?bs = "nonempty pre @ [b]"
  have ne1: "nonempty (pre @ [b]) = ?bs"
    using assms(4) by (simp add: nonempty_def)
  have ne: "nonempty (pre @ b # post) = ?bs @ nonempty post"
    using assms(4) by (simp add: nonempty_def)
  have v1: "list_all (valid_slice h0) (nonempty (pre @ [b]))"
    and v2: "list_all (valid_slice h0) (nonempty post)" and vb: "valid_slice h0 b"
    using assms(2) unfolding ne ne1 by simp_all
  have len1: "int (length ?bs) = MaxIovs" using assms(3) by simp
  from tracks_Adds [OF assms(1) tracks_init [OF assms(1)] v1 assms(6)]
  have t1: "tracks h0 MaxIovs ?bs (h1, w1)" using ne1 by simp
  then have h1: "h1 = h0" and o1: "overflow w1 = b\<lparr>cap := len b\<rparr>"
    and iv1: "iovec w1 = map desc_of (take (nat MaxIovs - 1) ?bs) @ [desc_of (overflow w1)]"
    using len1 by (simp_all add: tracks_def)
  have l1: "int (length (iovec w1)) = MaxIovs"
    using iv1 len1 by simp
  have first: "arr (overflow w') = length h1 \<and> length h' = Suc (length h1) \<and>
      take (length h1) h' = h1"
    if c: "valid_slice h0 c \<and> len c \<noteq> 0 \<and> Add spare MaxIovs c (h1, w1) = Inr (h', w')"
    for c h' w'
  proof -
    have "addByAppend spare c (h1, w1) = Inr (h', w')"
      using Add_merge [of c MaxIovs w1 spare h1] c l1 by simp
    from addByAppend_InrD [OF this] obtain h'' ov
      where ap: "append_bytes spare h1 (overflow w1) (bytes_of h1 c) = Inr (h'', ov)" by blast
    have vo: "valid_slice h1 (overflow w1)"
      using vb o1 h1 by (simp add: valid_slice_def)
    from c merge_step [OF assms(1) _ _ _ vo ap] l1 h1
    have eq: "h' = h''" "overflow w' = ov" by simp_all
    have "cap (overflow w1) < len (overflow w1) + length (bytes_of h1 c)"
      using o1 c h1 by (simp add: length_bytes_of)
    with append_bytes_cases [OF ap] eq show ?thesis by auto
  qed
  from tracks_Adds [OF assms(1) t1 v2 assms(7)]
  have t2: "tracks h0 MaxIovs (?bs @ nonempty post) (h2, w2)" .
  have gt: "MaxIovs < int (length (?bs @ nonempty post))"
    using len1 assms(5) by (cases "nonempty post") simp_all
  from t2 gt have ext: "extends h0 h2" and fresh: "length h0 \<le> arr (overflow w2)"
    and iv2: "iovec w2 = map desc_of (take (nat MaxIovs - 1) (?bs @ nonempty post))
                @ [desc_of (overflow w2)]"
    by (simp_all add: tracks_def)
  have last2: "last (iovec w2) = desc_of (overflow w2)"
    using iv2 by simp
  have "arr b < length h0" using vb by (simp add: valid_slice_def)
  then have "fst (Base (last (iovec w2))) \<noteq> arr b"
    using fresh last2 by (simp add: desc_of_def)
  then have mut: "iovec_bytes (h2[arr b := xs]) (last (iovec w2)) = iovec_bytes h2 (last (iovec w2))"
    for xs by (rule iovec_bytes_update_other)
  show ?thesis
    using h1 l1 o1 first fresh ext last2 mut
    by (simp add: Build_def extends_def desc_of_def)
qed

lemma demo_post:
  "Adds (\<lambda>c n. n) 2 [buf_c]
       (demo_store,
        \<lparr>iovec = [\<lparr>Base = (0, 0), Len = 2\<rparr>, \<lparr>Base = (1, 0), Len = 3\<rparr>], overflow = buf_b\<lparr>cap := 3\<rparr>\<rparr>) =
     Inr (demo_store @ [[3, 4, 5, 6, 7, 8, 9] @ replicate 7 0],
          \<lparr>iovec = [\<lparr>Base = (0, 0), Len = 2\<rparr>, \<lparr>Base = (3, 0), Len = 7\<rparr>],
           overflow = \<lparr>arr = 3, off = 0, len = 7, cap = 14\<rparr>\<rparr>)"
  using demo_merge by simp

theorem overflow_seed_not_aliased_witness:
  "1 \<le> (2::int) \<and>
   list_all (valid_slice demo_store) (nonempty ([buf_a, nil_slice] @ buf_b # [buf_c])) \<and>
   int (length (nonempty [buf_a, nil_slice])) + 1 = 2 \<and> len buf_b \<noteq> 0 \<and>
   nonempty [buf_c] \<noteq> [] \<and>
   (\<exists>h1 w1 h2 w2.
      Adds (\<lambda>c n. n) 2 ([buf_a, nil_slice] @ [buf_b]) (demo_store, empty_builder) = Inr (h1, w1) \<and>
      Adds (\<lambda>c n. n) 2 [buf_c] (h1, w1) = Inr (h2, w2) \<and>
      overflow w1 = buf_b\<lparr>cap := len buf_b\<rparr> \<and> take 3 h2 = demo_store \<and>
      iovec_bytes (h2[arr buf_b := [255, 255, 255]])
          (last (fst (Build (h2[arr buf_b := [255, 255, 255]], w2))))
        = [3, 4, 5, 6, 7, 8, 9])"
proof -
  have one: "1 \<le> (2::int)" by simp
  have v: "list_all (valid_slice demo_store) (nonempty ([buf_a, nil_slice] @ buf_b # [buf_c]))"
    using demo_nonempty demo_valid by simp
  have p: "int (length (nonempty [buf_a, nil_slice])) + 1 = 2"
    by (simp add: nonempty_def demo_defs)
  have n: "len buf_b \<noteq> 0" by (simp add: demo_defs)
  have q: "nonempty [buf_c] \<noteq> []" by (simp add: nonempty_def demo_defs)
  have r1: "Adds (\<lambda>c n. n) 2 ([buf_a, nil_slice] @ [buf_b]) (demo_store, empty_builder) =
     Inr (demo_store,
          \<lparr>iovec = [\<lparr>Base = (0, 0), Len = 2\<rparr>, \<lparr>Base = (1, 0), Len = 3\<rparr>],
           overflow = buf_b\<lparr>cap := 3\<rparr>\<rparr>)"
    using demo_saturated [of "\<lambda>c n. n"] by simp
  have l: "len buf_b = 3" "length demo_store = 3" by (simp_all add: demo_defs)
  have e: "iovec_bytes (demo_store @ [[3, 4, 5, 6, 7, 8, 9] @ replicate 7 0])
             \<lparr>Base = (3, 0), Len = 7\<rparr> = [3, 4, 5, 6, 7, 8, 9]"
    by (simp add: iovec_bytes_def cells_def demo_defs)
  from overflow_seed_not_aliased [OF one v p n q r1 demo_post] e l one v p n q r1 demo_post
  show ?thesis
    by (simp del: Adds.simps add: Build_def)
qed

text \<open>
  Both restrictions are needed. With \<open>MaxIovs = 2\<close>, after \<open>Add(a)\<close>, \<open>Add(b)\<close> and
  \<open>Add(nil)\<close> the further \<open>Add\<close> has returned at once, the last descriptor still
  points at \<open>b\<close>, and overwriting \<open>b\<close> shows through it. And after \<open>Add(a)\<close>,
  \<open>Add(b)\<close>, \<open>Add(c)\<close> a fourth \<open>Add\<close> grows the overflow slice in place, in the
  array that the third one allocated: the store gets no new array.
\<close>

theorem overflow_alias_counterexample:
  "Adds demo_spare 2 [buf_a, buf_b, nil_slice] (demo_store, empty_builder) =
     Inr (demo_store,
          \<lparr>iovec = [\<lparr>Base = (0, 0), Len = 2\<rparr>, \<lparr>Base = (1, 0), Len = 3\<rparr>],
           overflow = \<lparr>arr = 1, off = 0, len = 3, cap = 3\<rparr>\<rparr>) \<and>
   iovec_bytes demo_store
     (last (fst (Build (demo_store,
        \<lparr>iovec = [\<lparr>Base = (0, 0), Len = 2\<rparr>, \<lparr>Base = (1, 0), Len = 3\<rparr>],
         overflow = \<lparr>arr = 1, off = 0, len = 3, cap = 3\<rparr>\<rparr>)))) = [3, 4, 5] \<and>
   iovec_bytes (demo_store[arr buf_b := [9, 9, 9, 0, 0]])
     (last (fst (Build (demo_store[arr buf_b := [9, 9, 9, 0, 0]],
        \<lparr>iovec = [\<lparr>Base = (0, 0), Len = 2\<rparr>, \<lparr>Base = (1, 0), Len = 3\<rparr>],
         overflow = \<lparr>arr = 1, off = 0, len = 3, cap = 3\<rparr>\<rparr>)))) = [9, 9, 9] \<and>
   [9, 9, 9] \<noteq> [3, 4, 5 :: byte] \<and>
   Adds demo_spare 2 [buf_a, buf_b, buf_c] (demo_store, empty_builder) =
     Inr (demo_store @ [[3, 4, 5, 6, 7, 8, 9] @ replicate 7 0],
          \<lparr>iovec = [\<lparr>Base = (0, 0), Len = 2\<rparr>, \<lparr>Base = (3, 0), Len = 7\<rparr>],
           overflow = \<lparr>arr = 3, off = 0, len = 7, cap = 14\<rparr>\<rparr>) \<and>
   Add demo_spare 2 buf_a
       (demo_store @ [[3, 4, 5, 6, 7, 8, 9] @ replicate 7 0],
        \<lparr>iovec = [\<lparr>Base = (0, 0), Len = 2\<rparr>, \<lparr>Base = (3, 0), Len = 7\<rparr>],
         overflow = \<lparr>arr = 3, off = 0, len = 7, cap = 14\<rparr>\<rparr>) =
     Inr (demo_store @ [[3, 4, 5, 6, 7, 8, 9, 1, 2] @ replicate 5 0],
          \<lparr>iovec = [\<lparr>Base = (0, 0), Len = 2\<rparr>, \<lparr>Base = (3, 0), Len = 9\<rparr>],
           overflow = \<lparr>arr = 3, off = 0, len = 9, cap = 14\<rparr>\<rparr>)"
  by (simp add: demo_defs run_defs demo_spare_def Build_def iovec_bytes_def)

end
